theory Spec2Isabelle
  imports Main "HOL-Library.AList" "HOL-Library.Char_ord" "HOL-Library.List_Lexorder"
begin

section \<open>Data model\<close>

text \<open>
  The indexing pipeline of the IPL search engine: \<^verbatim>\<open>LexiconBuilder\<close>
  (\<^verbatim>\<open>src/lexicon_builder.py\<close>), \<^verbatim>\<open>ForwardIndexBuilder\<close>
  (\<^verbatim>\<open>backend/src/forward_index_builder.py\<close>), \<^verbatim>\<open>InvertedIndexBuilder\<close>
  (\<^verbatim>\<open>src/inverted_index_builder.py\<close>) and \<^verbatim>\<open>BarrelManager\<close>
  (\<^verbatim>\<open>backend/src/barrel_manager.py\<close>).

  Python integers are \<open>int\<close>. A token is a \<open>string\<close>; with the orders of
  \<open>Char_ord\<close> and \<open>List_Lexorder\<close> two strings compare as Python compares
  \<^verbatim>\<open>str\<close> values (lexicographically, character by character; the byte order of
  UTF-8 is the order of the code points). Exceptions are values of \<open>error\<close>.
  The \<^verbatim>\<open>print\<close> calls and the progress counters are left out: they change no state.
\<close>

datatype error = ZeroDivisionError | KeyError | OSError

text \<open>
  A document is a Python dict. \<^verbatim>\<open>doc['doc_id']\<close> raises \<^verbatim>\<open>KeyError\<close> when the key
  is absent, \<^verbatim>\<open>doc.get('tokens', [])\<close> reads an absent key as the empty list; both
  fields are therefore optional.
\<close>

record document =
  doc_id :: "int option"
  tokens :: "string list option"

definition get_tokens :: "document \<Rightarrow> string list" where
  "get_tokens doc = (case tokens doc of None \<Rightarrow> [] | Some ts \<Rightarrow> ts)"

section \<open>LexiconBuilder\<close>

record lexicon_builder =
  lexicon :: "string \<rightharpoonup> int"
  next_word_id :: int

text \<open>\<^verbatim>\<open>LexiconBuilder.__init__\<close>\<close>

definition lexicon_builder_init :: lexicon_builder where
  "lexicon_builder_init = \<lparr>lexicon = Map.empty, next_word_id = 0\<rparr>"

text \<open>The loop \<^verbatim>\<open>for doc in documents: unique_words.update(doc.get('tokens', []))\<close>.\<close>

fun collect_unique_words :: "string set \<Rightarrow> document list \<Rightarrow> string set" where
  "collect_unique_words unique_words [] = unique_words"
| "collect_unique_words unique_words (doc # docs) =
     collect_unique_words (unique_words \<union> set (get_tokens doc)) docs"

text \<open>
  The loop \<^verbatim>\<open>for word in sorted_words: self.lexicon[word] = self.next_word_id;
  self.next_word_id += 1\<close>.
\<close>

fun assign_ids :: "lexicon_builder \<Rightarrow> string list \<Rightarrow> lexicon_builder" where
  "assign_ids b [] = b"
| "assign_ids b (word # sorted_words) =
     assign_ids
       \<lparr>lexicon = (lexicon b)(word \<mapsto> next_word_id b), next_word_id = next_word_id b + 1\<rparr>
       sorted_words"

text \<open>
  \<^verbatim>\<open>LexiconBuilder.build_from_documents\<close>: \<^verbatim>\<open>sorted(unique_words)\<close> is the sorted
  list of a finite set. The method returns \<^verbatim>\<open>self.lexicon\<close>, the \<open>lexicon\<close> field of
  the builder returned here. Neither field is reset at the start of the method.
\<close>

definition lexicon_build_from_documents :: "lexicon_builder \<Rightarrow> document list \<Rightarrow> lexicon_builder" where
  "lexicon_build_from_documents b documents =
     (let unique_words = collect_unique_words {} documents;
          sorted_words = sorted_list_of_set unique_words
      in assign_ids b sorted_words)"

text \<open>\<^verbatim>\<open>LexiconBuilder.get_word_id\<close>: \<^verbatim>\<open>self.lexicon.get(word)\<close>, \<open>None\<close> for Python's \<^verbatim>\<open>None\<close>.\<close>

definition get_word_id :: "lexicon_builder \<Rightarrow> string \<Rightarrow> int option" where
  "get_word_id b word = lexicon b word"

section \<open>ForwardIndexBuilder\<close>

text \<open>
  The forward index is a dict that is iterated later (by the inverted index builder), so
  it is an association list in insertion order: \<open>AList.update\<close> replaces the value of a
  key that is present, in place, and appends a new key, as a dict assignment does.
\<close>

type_synonym forward_index = "(int \<times> int list) list"

record forward_index_builder =
  fwd_lexicon :: "string \<rightharpoonup> int"
  forward_index :: forward_index

text \<open>\<^verbatim>\<open>ForwardIndexBuilder.__init__\<close>\<close>

definition forward_index_builder_init :: "(string \<rightharpoonup> int) \<Rightarrow> forward_index_builder" where
  "forward_index_builder_init lx = \<lparr>fwd_lexicon = lx, forward_index = []\<rparr>"

text \<open>
  The inner loop \<^verbatim>\<open>for token in tokens: word_id = self.lexicon.get(token);
  if word_id is not None: word_ids.append(word_id)\<close>.
\<close>

fun convert_tokens :: "(string \<rightharpoonup> int) \<Rightarrow> int list \<Rightarrow> string list \<Rightarrow> int list" where
  "convert_tokens lx word_ids [] = word_ids"
| "convert_tokens lx word_ids (token # toks) =
     (case lx token of
        None \<Rightarrow> convert_tokens lx word_ids toks
      | Some word_id \<Rightarrow> convert_tokens lx (word_ids @ [word_id]) toks)"

text \<open>
  \<^verbatim>\<open>ForwardIndexBuilder.build_from_documents\<close>: the loop over the documents. A
  document without \<^verbatim>\<open>'doc_id'\<close> raises and leaves the entries written so far.
\<close>

fun forward_build_from_documents ::
  "forward_index_builder \<Rightarrow> document list \<Rightarrow> error option \<times> forward_index_builder" where
  "forward_build_from_documents b [] = (None, b)"
| "forward_build_from_documents b (doc # docs) =
     (case doc_id doc of
        None \<Rightarrow> (Some KeyError, b)
      | Some i \<Rightarrow>
          forward_build_from_documents
            (b\<lparr>forward_index :=
                 AList.update i (convert_tokens (fwd_lexicon b) [] (get_tokens doc)) (forward_index b)\<rparr>)
            docs)"

text \<open>\<^verbatim>\<open>ForwardIndexBuilder.get_document_words\<close>: \<^verbatim>\<open>self.forward_index.get(doc_id, [])\<close>.\<close>

definition get_document_words :: "forward_index \<Rightarrow> int \<Rightarrow> int list" where
  "get_document_words fi i = (case map_of fi i of None \<Rightarrow> [] | Some word_ids \<Rightarrow> word_ids)"

section \<open>BarrelManager\<close>

text \<open>
  \<^verbatim>\<open>barrels_buffer\<close> is a \<^verbatim>\<open>defaultdict\<close> of \<^verbatim>\<open>defaultdict(list)\<close>, iterated by
  \<^verbatim>\<open>flush_barrels\<close> in insertion order: an association list of association lists.
\<close>

type_synonym barrel_buffer = "(int \<times> (int \<times> int list) list) list"

record barrel_manager =
  barrel_size :: int
  barrels_buffer :: barrel_buffer

text \<open>
  The output directory. The file \<^verbatim>\<open>barrel_<id>.pkl\<close> is absent, or it does not
  unpickle, or it holds a pickled dict from word ids to lists of document ids.
\<close>

datatype barrel_file = Missing | Corrupt | Pickled "int \<rightharpoonup> int list"

type_synonym disk = "int \<Rightarrow> barrel_file"

text \<open>
  What \<^verbatim>\<open>with open(barrel_path, 'wb') as f: pickle.dump(current_data, f)\<close> does for a
  barrel: it succeeds, or \<^verbatim>\<open>open\<close> raises and the file is as before, or the file has been
  truncated by \<^verbatim>\<open>open\<close> and \<^verbatim>\<open>dump\<close> raises, leaving a file that does not unpickle.
\<close>

datatype write_outcome = WriteOk | OpenFails | DumpFails

text \<open>\<^verbatim>\<open>BarrelManager.__init__\<close>\<close>

definition barrel_manager_init :: "int \<Rightarrow> barrel_manager" where
  "barrel_manager_init bsize = \<lparr>barrel_size = bsize, barrels_buffer = []\<rparr>"

text \<open>
  \<^verbatim>\<open>get_barrel_id\<close>: \<^verbatim>\<open>word_id // self.barrel_size\<close>. Python's floor division is
  \<open>div\<close> on \<open>int\<close>, and it raises for a divisor 0.
\<close>

definition get_barrel_id :: "barrel_manager \<Rightarrow> int \<Rightarrow> error + int" where
  "get_barrel_id m word_id =
     (if barrel_size m = 0 then Inl ZeroDivisionError else Inr (word_id div barrel_size m))"

text \<open>
  \<^verbatim>\<open>add_to_barrel\<close>: \<^verbatim>\<open>self.barrels_buffer[barrel_id][word_id].append(doc_id)\<close>. A
  missing barrel id or word id is first entered with its default (an empty dict, an empty
  list). When \<^verbatim>\<open>get_barrel_id\<close> raises, nothing has been changed.
\<close>

definition add_to_barrel :: "barrel_manager \<Rightarrow> int \<Rightarrow> int \<Rightarrow> error option \<times> barrel_manager" where
  "add_to_barrel m word_id d =
     (case get_barrel_id m word_id of
        Inl e \<Rightarrow> (Some e, m)
      | Inr barrel_id \<Rightarrow>
          (None, m\<lparr>barrels_buffer :=
             AList.map_default barrel_id [(word_id, [d])]
               (AList.map_default word_id [d] (\<lambda>doc_ids. doc_ids @ [d]))
               (barrels_buffer m)\<rparr>))"

text \<open>
  \<^verbatim>\<open>list(set(xs))\<close>: the elements of \<open>xs\<close> without duplicates, in the order in which
  the set is iterated. Python leaves that order open; the model lists the set in ascending
  order, and no theorem below depends on the order.
\<close>

definition list_of_set :: "int list \<Rightarrow> int list" where
  "list_of_set xs = sorted_list_of_set (set xs)"

text \<open>The merge loop \<^verbatim>\<open>for word_id, doc_ids in new_data.items(): ...\<close> of \<^verbatim>\<open>flush_barrels\<close>.\<close>

fun merge_new_data :: "(int \<rightharpoonup> int list) \<Rightarrow> (int \<times> int list) list \<Rightarrow> (int \<rightharpoonup> int list)" where
  "merge_new_data current_data [] = current_data"
| "merge_new_data current_data ((word_id, doc_ids) # new_data) =
     merge_new_data
       (case current_data word_id of
          Some old \<Rightarrow> current_data(word_id \<mapsto> list_of_set (old @ doc_ids))
        | None \<Rightarrow> current_data(word_id \<mapsto> list_of_set doc_ids))
       new_data"

text \<open>
  \<^verbatim>\<open>load_barrel\<close>: the empty dict when the file is absent or \<^verbatim>\<open>pickle.load\<close> raises
  (the exception is caught). The same reading opens each round of \<^verbatim>\<open>flush_barrels\<close>.
\<close>

definition load_barrel :: "disk \<Rightarrow> int \<Rightarrow> (int \<rightharpoonup> int list)" where
  "load_barrel dsk barrel_id =
     (case dsk barrel_id of Missing \<Rightarrow> Map.empty | Corrupt \<Rightarrow> Map.empty | Pickled data \<Rightarrow> data)"

text \<open>
  The loop of \<^verbatim>\<open>flush_barrels\<close> over \<^verbatim>\<open>self.barrels_buffer.items()\<close>: read, merge,
  write. A failing write raises out of the loop; the barrels written before stay written.
\<close>

fun flush_loop :: "(int \<Rightarrow> write_outcome) \<Rightarrow> barrel_buffer \<Rightarrow> disk \<Rightarrow> error option \<times> disk" where
  "flush_loop env [] dsk = (None, dsk)"
| "flush_loop env ((barrel_id, new_data) # rest) dsk =
     (let current_data = merge_new_data (load_barrel dsk barrel_id) new_data
      in case env barrel_id of
           WriteOk \<Rightarrow> flush_loop env rest (dsk(barrel_id := Pickled current_data))
         | OpenFails \<Rightarrow> (Some OSError, dsk)
         | DumpFails \<Rightarrow> (Some OSError, dsk(barrel_id := Corrupt)))"

text \<open>
  \<^verbatim>\<open>flush_barrels\<close>: \<^verbatim>\<open>self.barrels_buffer.clear()\<close> comes after the loop, so it is
  reached only when no write has raised.
\<close>

definition flush_barrels ::
  "(int \<Rightarrow> write_outcome) \<Rightarrow> barrel_manager \<Rightarrow> disk \<Rightarrow> error option \<times> barrel_manager \<times> disk" where
  "flush_barrels env m dsk =
     (case flush_loop env (barrels_buffer m) dsk of
        (None, dsk') \<Rightarrow> (None, m\<lparr>barrels_buffer := []\<rparr>, dsk')
      | (Some e, dsk') \<Rightarrow> (Some e, m, dsk'))"

text \<open>\<^verbatim>\<open>get_documents_for_word\<close>: \<^verbatim>\<open>barrel_data.get(word_id, [])\<close> of the word's barrel.\<close>

definition get_documents_for_word :: "barrel_manager \<Rightarrow> disk \<Rightarrow> int \<Rightarrow> error + int list" where
  "get_documents_for_word m dsk word_id =
     (case get_barrel_id m word_id of
        Inl e \<Rightarrow> Inl e
      | Inr barrel_id \<Rightarrow>
          Inr (case load_barrel dsk barrel_id word_id of None \<Rightarrow> [] | Some doc_ids \<Rightarrow> doc_ids))"

section \<open>InvertedIndexBuilder\<close>

text \<open>The inner loop \<^verbatim>\<open>for word_id in word_ids: self.barrel_manager.add_to_barrel(word_id, doc_id)\<close>.\<close>

fun add_word_ids :: "barrel_manager \<Rightarrow> int \<Rightarrow> int list \<Rightarrow> error option \<times> barrel_manager" where
  "add_word_ids m d [] = (None, m)"
| "add_word_ids m d (word_id # word_ids) =
     (case add_to_barrel m word_id d of
        (None, m') \<Rightarrow> add_word_ids m' d word_ids
      | (Some e, m') \<Rightarrow> (Some e, m'))"

text \<open>The outer loop \<^verbatim>\<open>for doc_id, word_ids in forward_index.items(): ...\<close>.\<close>

fun invert_loop :: "barrel_manager \<Rightarrow> forward_index \<Rightarrow> error option \<times> barrel_manager" where
  "invert_loop m [] = (None, m)"
| "invert_loop m ((d, word_ids) # rest) =
     (case add_word_ids m d word_ids of
        (None, m') \<Rightarrow> invert_loop m' rest
      | (Some e, m') \<Rightarrow> (Some e, m'))"

text \<open>\<^verbatim>\<open>build_from_forward_index\<close>: the two loops, then the final \<^verbatim>\<open>flush_barrels\<close>.\<close>

definition build_from_forward_index ::
  "(int \<Rightarrow> write_outcome) \<Rightarrow> barrel_manager \<Rightarrow> forward_index \<Rightarrow> disk
     \<Rightarrow> error option \<times> barrel_manager \<times> disk" where
  "build_from_forward_index env m fi dsk =
     (case invert_loop m fi of
        (None, m') \<Rightarrow> flush_barrels env m' dsk
      | (Some e, m') \<Rightarrow> (Some e, m', dsk))"

section \<open>Notions used to state the properties\<close>

text \<open>The postings held in the buffer, as triples of barrel id, word id and document id.\<close>

definition buffered_postings :: "barrel_buffer \<Rightarrow> (int \<times> int \<times> int) list" where
  "buffered_postings buf = [(b, w, d). (b, new_data) \<leftarrow> buf, (w, doc_ids) \<leftarrow> new_data, d \<leftarrow> doc_ids]"

text \<open>The document ids a barrel dict holds for a word id, as a set; no posting for an absent word id.\<close>

definition postings :: "(int \<rightharpoonup> int list) \<Rightarrow> int \<Rightarrow> int set" where
  "postings data w = (case data w of None \<Rightarrow> {} | Some doc_ids \<Rightarrow> set doc_ids)"

text \<open>A sequence of \<^verbatim>\<open>add_to_barrel(word_id, doc_id)\<close> calls; the first call that raises ends it.\<close>

fun add_postings :: "barrel_manager \<Rightarrow> (int \<times> int) list \<Rightarrow> error option \<times> barrel_manager" where
  "add_postings m [] = (None, m)"
| "add_postings m ((word_id, d) # ps) =
     (case add_to_barrel m word_id d of
        (None, m') \<Rightarrow> add_postings m' ps
      | (Some e, m') \<Rightarrow> (Some e, m'))"

text \<open>One pass of an incremental build: the \<^verbatim>\<open>add_to_barrel\<close> calls, then \<^verbatim>\<open>flush_barrels\<close>.\<close>

definition flush_pass ::
  "(int \<Rightarrow> write_outcome) \<Rightarrow> barrel_manager \<Rightarrow> (int \<times> int) list \<Rightarrow> disk
     \<Rightarrow> error option \<times> barrel_manager \<times> disk" where
  "flush_pass env m ps dsk =
     (case add_postings m ps of
        (None, m') \<Rightarrow> flush_barrels env m' dsk
      | (Some e, m') \<Rightarrow> (Some e, m', dsk))"

text \<open>The buffered postings of a manager.\<close>

definition pending :: "barrel_manager \<Rightarrow> (int \<times> int \<times> int) set" where
  "pending m = set (buffered_postings (barrels_buffer m))"

text \<open>The posting list of a word id in a barrel dict has no duplicates.\<close>

definition deduplicated :: "(int \<rightharpoonup> int list) \<Rightarrow> int \<Rightarrow> bool" where
  "deduplicated data w = (case data w of None \<Rightarrow> True | Some doc_ids \<Rightarrow> distinct doc_ids)"

text \<open>The distinct tokens of a document collection.\<close>

definition vocabulary :: "document list \<Rightarrow> string set" where
  "vocabulary docs = set (concat (map get_tokens docs))"

text \<open>
  The lexicon a freshly constructed builder returns, as \<^verbatim>\<open>build_indices\<close> of
  \<^verbatim>\<open>main.py\<close> obtains it: \<^verbatim>\<open>LexiconBuilder().build_from_documents(documents)\<close>.
\<close>

definition fresh_lexicon :: "document list \<Rightarrow> (string \<rightharpoonup> int)" where
  "fresh_lexicon docs = lexicon (lexicon_build_from_documents lexicon_builder_init docs)"

text \<open>The three documents of the end-to-end scenario.\<close>

definition scenario_documents :: "document list" where
  "scenario_documents =
     [\<lparr>doc_id = Some 0, tokens = Some [''six'', ''four'']\<rparr>,
      \<lparr>doc_id = Some 1, tokens = Some [''six'', ''wicket'']\<rparr>,
      \<lparr>doc_id = Some 2, tokens = Some [''four'']\<rparr>]"

text \<open>
  The scenario continued as \<^verbatim>\<open>build_indices\<close> of \<^verbatim>\<open>main.py\<close> chains the builders:
  the forward index built with the fresh lexicon, then the inverted index built from it by
  a new manager with \<^verbatim>\<open>barrel_size=2\<close> into an empty directory, every write succeeding.
\<close>

definition scenario_forward :: "error option \<times> forward_index_builder" where
  "scenario_forward =
     forward_build_from_documents
       (forward_index_builder_init (fresh_lexicon scenario_documents)) scenario_documents"

definition scenario_build :: "error option \<times> barrel_manager \<times> disk" where
  "scenario_build =
     build_from_forward_index (\<lambda>_. WriteOk) (barrel_manager_init 2)
       (forward_index (snd scenario_forward)) (\<lambda>_. Missing)"

section \<open>The lexicon\<close>

lemma collect_unique_words_eq:
  "collect_unique_words u docs = u \<union> vocabulary docs"
  by (induction docs arbitrary: u) (auto simp: vocabulary_def)

lemma finite_vocabulary [simp]: "finite (vocabulary docs)"
  by (simp add: vocabulary_def)

lemma finite_collect_unique_words: "finite (collect_unique_words {} docs)"
  by (simp add: collect_unique_words_eq)

lemma assign_ids_other:
  "word \<notin> set ws \<Longrightarrow> lexicon (assign_ids b ws) word = lexicon b word"
  by (induction ws arbitrary: b) auto

lemma assign_ids_next:
  "next_word_id (assign_ids b ws) = next_word_id b + int (length ws)"
  by (induction ws arbitrary: b) auto

lemma assign_ids_nth:
  "distinct ws \<Longrightarrow> i < length ws \<Longrightarrow>
   lexicon (assign_ids b ws) (ws ! i) = Some (next_word_id b + int i)"
proof (induction ws arbitrary: b i)
  case Nil
  then show ?case by simp
next
  case (Cons w ws)
  show ?case
  proof (cases i)
    case 0
    with Cons.prems show ?thesis by (simp add: assign_ids_other)
  next
    case (Suc j)
    with Cons.prems show ?thesis by (simp add: Cons.IH)
  qed
qed

lemma build_other:
  "word \<notin> vocabulary docs \<Longrightarrow>
   lexicon (lexicon_build_from_documents b docs) word = lexicon b word"
  by (simp add: lexicon_build_from_documents_def Let_def assign_ids_other collect_unique_words_eq)

lemma build_next:
  "next_word_id (lexicon_build_from_documents b docs) =
   next_word_id b + int (card (vocabulary docs))"
  by (simp add: lexicon_build_from_documents_def Let_def assign_ids_next collect_unique_words_eq)

lemma build_nth:
  "i < card (vocabulary docs) \<Longrightarrow>
   lexicon (lexicon_build_from_documents b docs)
     (sorted_list_of_set (vocabulary docs) ! i) = Some (next_word_id b + int i)"
  by (simp add: lexicon_build_from_documents_def Let_def assign_ids_nth collect_unique_words_eq)

lemma sorted_list_of_set_nth_less:
  fixes V :: "'a::linorder set"
  assumes "finite V" "i < card V" "j < card V"
  shows "sorted_list_of_set V ! i < sorted_list_of_set V ! j \<longleftrightarrow> i < j"
proof -
  let ?S = "sorted_list_of_set V"
  have len: "length ?S = card V" by simp
  have ss: "sorted_wrt (<) ?S" by simp
  have mono: "?S ! a < ?S ! b" if "a < b" "b < card V" for a b
    using ss that len by (simp add: sorted_wrt_iff_nth_less)
  show ?thesis
  proof (cases i j rule: linorder_cases)
    case less
    with mono assms show ?thesis by simp
  next
    case equal
    then show ?thesis by simp
  next
    case greater
    with mono[of j i] assms show ?thesis by (simp add: less_imp_not_less)
  qed
qed

lemma fresh_lexicon_nth:
  "i < card (vocabulary docs) \<Longrightarrow>
   fresh_lexicon docs (sorted_list_of_set (vocabulary docs) ! i) = Some (int i)"
  using build_nth[of i docs lexicon_builder_init]
  by (simp add: fresh_lexicon_def lexicon_builder_init_def)

lemma fresh_lexicon_other:
  "word \<notin> vocabulary docs \<Longrightarrow> fresh_lexicon docs word = None"
  using build_other[of word docs lexicon_builder_init]
  by (simp add: fresh_lexicon_def lexicon_builder_init_def)

lemma vocabulary_nth:
  "word \<in> vocabulary docs \<Longrightarrow>
   \<exists>i<card (vocabulary docs). sorted_list_of_set (vocabulary docs) ! i = word"
  using in_set_conv_nth[of word "sorted_list_of_set (vocabulary docs)"] by simp

lemma scenario_vocabulary:
  "sorted_list_of_set (vocabulary scenario_documents) = [''four'', ''six'', ''wicket'']"
  by code_simp

lemma scenario_card: "card (vocabulary scenario_documents) = 3"
  by code_simp

text \<open>
  Claim C2. The lexicon that \<^verbatim>\<open>build_from_documents\<close> returns on a freshly constructed
  builder has the distinct tokens of the documents as its keys; its ids are exactly
  \<open>0, \<dots>, N - 1\<close> for \<open>N\<close> distinct tokens, no two tokens share an id, the \<open>i\<close>-th
  token in lexicographic order has id \<open>i\<close> (so ids are ordered as the tokens are), and
  any document collection with the same distinct tokens, in particular the same
  collection again, yields the same mapping.
\<close>

theorem lexicon_dense_sorted_deterministic:
  "dom (fresh_lexicon docs) = vocabulary docs \<and>
   ran (fresh_lexicon docs) = {0..<int (card (vocabulary docs))} \<and>
   inj_on (fresh_lexicon docs) (vocabulary docs) \<and>
   (\<forall>i<card (vocabulary docs).
      fresh_lexicon docs (sorted_list_of_set (vocabulary docs) ! i) = Some (int i)) \<and>
   (\<forall>w1\<in>vocabulary docs. \<forall>w2\<in>vocabulary docs.
      w1 < w2 \<longleftrightarrow> the (fresh_lexicon docs w1) < the (fresh_lexicon docs w2)) \<and>
   (\<forall>docs'. vocabulary docs' = vocabulary docs \<longrightarrow> fresh_lexicon docs' = fresh_lexicon docs)"
proof -
  define V where "V = vocabulary docs"
  define L where "L = fresh_lexicon docs"
  define S where "S = sorted_list_of_set V"
  have nth: "L (S ! i) = Some (int i)" if "i < card V" for i
    using that fresh_lexicon_nth[of i docs] by (simp add: V_def L_def S_def)
  have other: "L word = None" if "word \<notin> V" for word
    using that fresh_lexicon_other[of word docs] by (simp add: V_def L_def)
  have idx: "\<exists>i<card V. S ! i = word" if "word \<in> V" for word
    using that vocabulary_nth[of word docs] by (simp add: V_def S_def)
  have less: "S ! i < S ! j \<longleftrightarrow> i < j" if "i < card V" "j < card V" for i j
    unfolding S_def using that by (intro sorted_list_of_set_nth_less) (simp_all add: V_def)
  have dom: "dom L = V"
  proof (rule set_eqI)
    fix word
    show "word \<in> dom L \<longleftrightarrow> word \<in> V"
    proof (cases "word \<in> V")
      case True
      with idx nth show ?thesis by force
    next
      case False
      with other show ?thesis by (simp add: domIff)
    qed
  qed
  have ran: "ran L = {0..<int (card V)}"
  proof (rule set_eqI)
    fix y
    show "y \<in> ran L \<longleftrightarrow> y \<in> {0..<int (card V)}"
    proof
      assume "y \<in> ran L"
      then obtain word where w: "L word = Some y" by (auto simp: ran_def)
      then have "word \<in> V" using other by force
      with idx obtain i where "i < card V" "S ! i = word" by blast
      with nth[of i] w show "y \<in> {0..<int (card V)}" by simp
    next
      assume "y \<in> {0..<int (card V)}"
      then have "nat y < card V" "int (nat y) = y" by auto
      with nth[of "nat y"] show "y \<in> ran L" by (auto simp: ran_def)
    qed
  qed
  have inj: "inj_on L V"
  proof (rule inj_onI)
    fix w1 w2 assume a: "w1 \<in> V" "w2 \<in> V" "L w1 = L w2"
    from idx a obtain i j where "i < card V" "S ! i = w1" "j < card V" "S ! j = w2" by blast
    with nth[of i] nth[of j] a(3) show "w1 = w2" by auto
  qed
  have order: "w1 < w2 \<longleftrightarrow> the (L w1) < the (L w2)" if a: "w1 \<in> V" "w2 \<in> V" for w1 w2
  proof -
    from idx a obtain i j where ij: "i < card V" "S ! i = w1" "j < card V" "S ! j = w2" by blast
    with nth[of i] nth[of j] less[of i j] show ?thesis by auto
  qed
  have det: "fresh_lexicon docs' = L" if "vocabulary docs' = V" for docs'
  proof (rule ext)
    fix word
    show "fresh_lexicon docs' word = L word"
    proof (cases "word \<in> V")
      case True
      with idx obtain i where i: "i < card V" "S ! i = word" by blast
      with fresh_lexicon_nth[of i docs'] that nth[of i] show ?thesis
        by (simp add: S_def)
    next
      case False
      with fresh_lexicon_other[of word docs'] that other show ?thesis by simp
    qed
  qed
  from dom ran inj nth order det show ?thesis
    unfolding V_def L_def S_def by blast
qed

theorem lexicon_dense_sorted_deterministic_witness:
  "fresh_lexicon scenario_documents ''six'' = Some 1 \<and>
   ran (fresh_lexicon scenario_documents) = {0..<3} \<and>
   fresh_lexicon (rev scenario_documents) = fresh_lexicon scenario_documents"
proof -
  note t = lexicon_dense_sorted_deterministic[of scenario_documents]
  note t_ran = t[THEN conjunct2, THEN conjunct1]
  note t_nth = t[THEN conjunct2, THEN conjunct2, THEN conjunct2, THEN conjunct1]
  note t_det = t[THEN conjunct2, THEN conjunct2, THEN conjunct2, THEN conjunct2, THEN conjunct2]
  have v: "vocabulary (rev scenario_documents) = vocabulary scenario_documents"
    by (simp add: vocabulary_def scenario_documents_def get_tokens_def) blast
  from t_nth
  have "\<forall>i<3. fresh_lexicon scenario_documents ([''four'', ''six'', ''wicket''] ! i) = Some (int i)"
    unfolding scenario_vocabulary scenario_card .
  from this[THEN spec, of 1]
  have a: "fresh_lexicon scenario_documents ''six'' = Some 1"
    by simp
  from t_ran have b: "ran (fresh_lexicon scenario_documents) = {0..<3}"
    unfolding scenario_card by simp
  from t_det[THEN spec, of "rev scenario_documents"] v
  have c: "fresh_lexicon (rev scenario_documents) = fresh_lexicon scenario_documents"
    by (rule mp)
  from a b c show ?thesis by (intro conjI)
qed

section \<open>Building twice with one builder\<close>

text \<open>
  A builder that has built the scenario documents builds them a second time: the token
  that had id 0 now has id 3, because the first build left the counter at 3.
\<close>

theorem rebuild_depends_on_prior_build:
  "lexicon (lexicon_build_from_documents
              (lexicon_build_from_documents lexicon_builder_init scenario_documents)
              scenario_documents) ''four'' = Some 3 \<and>
   lexicon (lexicon_build_from_documents lexicon_builder_init scenario_documents) ''four'' = Some 0 \<and>
   next_word_id (lexicon_build_from_documents lexicon_builder_init scenario_documents) = 3"
  by code_simp

text \<open>
  Claim C7, amended. \<^verbatim>\<open>build_from_documents\<close> resets neither the counter nor the
  mapping. From any builder state it gives the \<open>i\<close>-th token (in lexicographic order) of
  the distinct tokens of the documents passed the id \<open>next_word_id + i\<close>, keeps the entry of
  every word that is not among these tokens, and advances the counter by the number of
  distinct tokens. On a builder in its freshly constructed state (counter 0, empty mapping)
  the returned mapping is \<open>fresh_lexicon\<close> of the documents, which depends on them alone.
\<close>

theorem rebuild_continues_counter:
  "(\<forall>word. word \<notin> vocabulary docs \<longrightarrow>
      lexicon (lexicon_build_from_documents b docs) word = lexicon b word) \<and>
   (\<forall>i<card (vocabulary docs).
      lexicon (lexicon_build_from_documents b docs) (sorted_list_of_set (vocabulary docs) ! i) =
      Some (next_word_id b + int i)) \<and>
   next_word_id (lexicon_build_from_documents b docs) = next_word_id b + int (card (vocabulary docs)) \<and>
   (lexicon b = Map.empty \<and> next_word_id b = 0 \<longrightarrow>
      lexicon (lexicon_build_from_documents b docs) = fresh_lexicon docs)"
proof -
  have "b = lexicon_builder_init" if "lexicon b = Map.empty" "next_word_id b = 0"
    using that by (cases b) (simp add: lexicon_builder_init_def)
  then show ?thesis
    by (auto simp: build_other build_nth build_next fresh_lexicon_def)
qed

theorem rebuild_continues_counter_witness:
  "lexicon (lexicon_build_from_documents
              (lexicon_build_from_documents lexicon_builder_init scenario_documents)
              [\<lparr>doc_id = Some 7, tokens = Some [''six'', ''run'']\<rparr>]) ''four'' = Some 0 \<and>
   lexicon (lexicon_build_from_documents
              (lexicon_build_from_documents lexicon_builder_init scenario_documents)
              [\<lparr>doc_id = Some 7, tokens = Some [''six'', ''run'']\<rparr>]) ''six'' = Some 4"
proof -
  let ?b = "lexicon_build_from_documents lexicon_builder_init scenario_documents"
  let ?d = "[\<lparr>doc_id = Some 7, tokens = Some [''six'', ''run'']\<rparr>]"
  note t = rebuild_continues_counter[of ?d ?b]
  have s: "sorted_list_of_set (vocabulary ?d) = [''run'', ''six'']" by code_simp
  have c: "card (vocabulary ?d) = 2" by code_simp
  have n: "next_word_id ?b = 3" by code_simp
  have f: "lexicon ?b ''four'' = Some 0" by code_simp
  have "''four'' \<notin> vocabulary ?d" by code_simp
  with t f have "lexicon (lexicon_build_from_documents ?b ?d) ''four'' = Some 0" by simp
  moreover from t have "\<forall>i<2. lexicon (lexicon_build_from_documents ?b ?d) ([''run'', ''six''] ! i) =
      Some (3 + int i)"
    unfolding s c n by blast
  from this[THEN spec, of 1]
  have "lexicon (lexicon_build_from_documents ?b ?d) ([''run'', ''six''] ! 1) = Some (3 + int 1)"
    by simp
  ultimately show ?thesis by simp
qed

section \<open>The forward index\<close>

lemma convert_tokens_eq:
  "convert_tokens lx acc toks = acc @ map (the \<circ> lx) (filter (\<lambda>token. lx token \<noteq> None) toks)"
  by (induction toks arbitrary: acc) (auto split: option.splits)

lemma forward_build_append:
  "forward_build_from_documents b (xs @ ys) =
     (case forward_build_from_documents b xs of
        (None, b1) \<Rightarrow> forward_build_from_documents b1 ys
      | (Some e, b1) \<Rightarrow> (Some e, b1))"
  by (induction xs arbitrary: b) (auto split: option.splits)

lemma forward_build_ok:
  assumes "\<forall>d\<in>set docs. doc_id d \<noteq> None"
  shows "\<exists>b'. forward_build_from_documents b docs = (None, b') \<and>
           fwd_lexicon b' = fwd_lexicon b \<and>
           (\<forall>i. Some i \<notin> doc_id ` set docs \<longrightarrow>
                map_of (forward_index b') i = map_of (forward_index b) i) \<and>
           (distinct (map fst (forward_index b)) \<longrightarrow> distinct (map fst (forward_index b')))"
  using assms
proof (induction docs arbitrary: b)
  case Nil
  then show ?case by simp
next
  case (Cons doc docs)
  from Cons.prems obtain k where k: "doc_id doc = Some k" by auto
  let ?b1 = "b\<lparr>forward_index :=
      AList.update k (convert_tokens (fwd_lexicon b) [] (get_tokens doc)) (forward_index b)\<rparr>"
  from Cons.IH[of ?b1] Cons.prems obtain b' where
    b': "forward_build_from_documents ?b1 docs = (None, b')"
        "fwd_lexicon b' = fwd_lexicon b"
        "\<And>i. Some i \<notin> doc_id ` set docs \<Longrightarrow>
              map_of (forward_index b') i = map_of (forward_index ?b1) i"
        "distinct (map fst (forward_index ?b1)) \<longrightarrow> distinct (map fst (forward_index b'))"
    by auto
  have 1: "forward_build_from_documents b (doc # docs) = (None, b')"
    by (simp add: k b'(1))
  have 2: "map_of (forward_index b') i = map_of (forward_index b) i"
    if "Some i \<notin> doc_id ` set (doc # docs)" for i
  proof -
    from that k have "i \<noteq> k" "Some i \<notin> doc_id ` set docs" by auto
    with b'(3)[of i] show ?thesis by (simp add: update_conv')
  qed
  have 3: "distinct (map fst (forward_index b'))" if "distinct (map fst (forward_index b))"
    using that b'(4) by (simp add: distinct_update)
  from 1 2 3 b'(2) show ?case by blast
qed

lemma forward_build_entry:
  assumes "docs = pre @ doc # post" and "doc_id doc = Some i"
    and "\<forall>d\<in>set docs. doc_id d \<noteq> None" and "Some i \<notin> doc_id ` set post"
  shows "\<exists>b'. forward_build_from_documents b docs = (None, b') \<and>
           map_of (forward_index b') i =
             Some (map (the \<circ> fwd_lexicon b)
                     (filter (\<lambda>token. fwd_lexicon b token \<noteq> None) (get_tokens doc)))"
proof -
  from assms(1,3) have pre: "\<forall>d\<in>set pre. doc_id d \<noteq> None"
    and post: "\<forall>d\<in>set post. doc_id d \<noteq> None" by auto
  from forward_build_ok[OF pre, of b] obtain b1 where
    b1: "forward_build_from_documents b pre = (None, b1)" "fwd_lexicon b1 = fwd_lexicon b"
    by blast
  let ?entry = "convert_tokens (fwd_lexicon b1) [] (get_tokens doc)"
  let ?b2 = "b1\<lparr>forward_index := AList.update i ?entry (forward_index b1)\<rparr>"
  from forward_build_ok[OF post, of ?b2] obtain b' where
    b': "forward_build_from_documents ?b2 post = (None, b')"
        "\<And>j. Some j \<notin> doc_id ` set post \<Longrightarrow>
              map_of (forward_index b') j = map_of (forward_index ?b2) j"
    by blast
  have "forward_build_from_documents b docs = (None, b')"
    by (simp add: assms(1,2) forward_build_append b1(1) b'(1))
  moreover have "map_of (forward_index b') i = Some ?entry"
    using b'(2)[OF assms(4)] by (simp add: update_conv')
  ultimately show ?thesis
    by (simp add: convert_tokens_eq b1(2))
qed

text \<open>
  The forward index stays a dict: its keys are distinct, whether or not the build raises.
\<close>

lemma forward_build_distinct:
  "distinct (map fst (forward_index b)) \<Longrightarrow>
   distinct (map fst (forward_index (snd (forward_build_from_documents b docs))))"
  by (induction docs arbitrary: b) (auto split: option.splits simp: distinct_update)

lemma forward_build_fresh_distinct:
  "distinct (map fst (forward_index (snd (forward_build_from_documents (forward_index_builder_init lx) docs))))"
  by (rule forward_build_distinct) (simp add: forward_index_builder_init_def)

text \<open>
  Claim C5. Every document of the collection has a \<^verbatim>\<open>doc_id\<close>, and no later document
  has the \<^verbatim>\<open>doc_id\<close> of the document \<open>doc\<close> (the caller keeps document ids unique; a
  later document with the same id would overwrite the entry). Then
  \<^verbatim>\<open>build_from_documents\<close> returns without an error, from any builder state, and the
  entry of \<open>doc\<close> is the list of the lexicon ids of its tokens, in the order of the tokens,
  with one id for each occurrence of a token the lexicon has and nothing for a token
  the lexicon does not have.
\<close>

theorem forward_index_entry:
  assumes "docs = pre @ doc # post" and "doc_id doc = Some i"
    and "\<forall>d\<in>set docs. doc_id d \<noteq> None" and "Some i \<notin> doc_id ` set post"
  shows "\<exists>b'. forward_build_from_documents b docs = (None, b') \<and>
           map_of (forward_index b') i =
             Some (map (the \<circ> fwd_lexicon b)
                     (filter (\<lambda>token. fwd_lexicon b token \<noteq> None) (get_tokens doc)))"
  using assms by (rule forward_build_entry)

theorem forward_index_entry_witness:
  "\<exists>b'. forward_build_from_documents
          (forward_index_builder_init [''four'' \<mapsto> 0, ''six'' \<mapsto> 1])
          [\<lparr>doc_id = Some 5, tokens = Some [''six'', ''bat'', ''six'', ''four'']\<rparr>,
           \<lparr>doc_id = Some 6, tokens = None\<rparr>] = (None, b') \<and>
        map_of (forward_index b') 5 = Some [1, 1, 0]"
proof -
  let ?d0 = "\<lparr>doc_id = Some 5, tokens = Some [''six'', ''bat'', ''six'', ''four'']\<rparr>"
  let ?d1 = "\<lparr>doc_id = Some 6, tokens = (None :: string list option)\<rparr>"
  let ?b = "forward_index_builder_init [''four'' \<mapsto> 0, ''six'' \<mapsto> 1]"
  have 1: "[?d0, ?d1] = [] @ ?d0 # [?d1]" by simp
  have 2: "doc_id ?d0 = Some 5" by simp
  have 3: "\<forall>d\<in>set [?d0, ?d1]. doc_id d \<noteq> None" by simp
  have 4: "Some 5 \<notin> doc_id ` set [?d1]" by simp
  from forward_index_entry[OF 1 2 3 4, of ?b] show ?thesis
    by (simp add: forward_index_builder_init_def get_tokens_def)
qed

text \<open>
  Claim C10. Under the same conditions, a document with a token whose lexicon id is 0 has
  0 in its forward-index entry: the lookup result \<open>Some 0\<close> is not \<open>None\<close>.
\<close>

theorem word_id_zero_is_present:
  assumes "docs = pre @ doc # post" and "doc_id doc = Some i"
    and "\<forall>d\<in>set docs. doc_id d \<noteq> None" and "Some i \<notin> doc_id ` set post"
    and "fwd_lexicon b token = Some 0" and "token \<in> set (get_tokens doc)"
  shows "\<exists>b'. forward_build_from_documents b docs = (None, b') \<and>
           0 \<in> set (get_document_words (forward_index b') i)"
proof -
  from forward_build_entry[OF assms(1-4), of b] obtain b' where
    b': "forward_build_from_documents b docs = (None, b')"
        "map_of (forward_index b') i =
           Some (map (the \<circ> fwd_lexicon b)
                   (filter (\<lambda>token. fwd_lexicon b token \<noteq> None) (get_tokens doc)))"
    by blast
  from assms(5,6) have "0 \<in> set (map (the \<circ> fwd_lexicon b)
      (filter (\<lambda>token. fwd_lexicon b token \<noteq> None) (get_tokens doc)))"
    by force
  with b' show ?thesis by (simp add: get_document_words_def)
qed

theorem word_id_zero_is_present_witness:
  "\<exists>b'. forward_build_from_documents
          (forward_index_builder_init [''four'' \<mapsto> 0, ''six'' \<mapsto> 1])
          [\<lparr>doc_id = Some 5, tokens = Some [''six'', ''four'']\<rparr>] = (None, b') \<and>
        0 \<in> set (get_document_words (forward_index b') 5)"
proof -
  let ?d0 = "\<lparr>doc_id = Some 5, tokens = Some [''six'', ''four'']\<rparr>"
  let ?b = "forward_index_builder_init [''four'' \<mapsto> 0, ''six'' \<mapsto> 1]"
  have 1: "[?d0] = [] @ ?d0 # []" by simp
  have 2: "doc_id ?d0 = Some 5" by simp
  have 3: "\<forall>d\<in>set [?d0]. doc_id d \<noteq> None" by simp
  have 4: "Some 5 \<notin> doc_id ` set []" by simp
  have 5: "fwd_lexicon ?b ''four'' = Some 0" by (simp add: forward_index_builder_init_def)
  have 6: "''four'' \<in> set (get_tokens ?d0)" by (simp add: get_tokens_def)
  from word_id_zero_is_present[OF 1 2 3 4 5 6] show ?thesis .
qed

section \<open>The end-to-end scenario\<close>

lemma scenario_lexicon:
  "fresh_lexicon scenario_documents = [''four'' \<mapsto> 0, ''six'' \<mapsto> 1, ''wicket'' \<mapsto> 2]"
proof -
  have "collect_unique_words {} scenario_documents = vocabulary scenario_documents"
    by (simp add: collect_unique_words_eq)
  then show ?thesis
    by (simp add: fresh_lexicon_def lexicon_build_from_documents_def scenario_vocabulary
        lexicon_builder_init_def)
qed

lemma scenario_forward_eq:
  "scenario_forward =
     (None, \<lparr>fwd_lexicon = [''four'' \<mapsto> 0, ''six'' \<mapsto> 1, ''wicket'' \<mapsto> 2],
             forward_index = [(0, [1, 0]), (1, [1, 2]), (2, [0])]\<rparr>)"
  unfolding scenario_forward_def scenario_lexicon
  by (simp add: scenario_documents_def forward_index_builder_init_def get_tokens_def)

lemma scenario_invert:
  "invert_loop (barrel_manager_init 2) [(0, [1, 0]), (1, [1, 2]), (2, [0])] =
     (None, \<lparr>barrel_size = 2,
             barrels_buffer = [(0, [(1, [0, 1]), (0, [0, 2])]), (1, [(2, [1])])]\<rparr>)"
  by (simp add: barrel_manager_init_def add_to_barrel_def get_barrel_id_def)

lemma list_of_set_examples:
  "list_of_set [0, 1] = [0, 1]" "list_of_set [0, 2] = [0, 2]" "list_of_set [1] = [1]"
  by (simp_all add: list_of_set_def sorted_list_of_set_sort_remdups)

lemma scenario_build_eq:
  "scenario_build =
     (None, \<lparr>barrel_size = 2, barrels_buffer = []\<rparr>,
      (\<lambda>_. Missing)(0 := Pickled [1 \<mapsto> [0, 1], 0 \<mapsto> [0, 2]], 1 := Pickled [2 \<mapsto> [1]]))"
proof -
  have fi: "forward_index (snd scenario_forward) = [(0, [1, 0]), (1, [1, 2]), (2, [0])]"
    by (simp add: scenario_forward_eq)
  show ?thesis
    unfolding scenario_build_def fi build_from_forward_index_def scenario_invert
    by (simp add: flush_barrels_def load_barrel_def list_of_set_examples)
qed

text \<open>
  Claim C6. For the three documents \<open>doc0 = [six, four]\<close>, \<open>doc1 = [six, wicket]\<close>,
  \<open>doc2 = [four]\<close>: the lexicon is \<open>{four: 0, six: 1, wicket: 2}\<close>; the forward index
  is \<open>{0: [1, 0], 1: [1, 2], 2: [0]}\<close>; with barrel size 2, barrel 0 holds
  \<open>{0: {0, 2}, 1: {0, 1}}\<close>, barrel 1 holds \<open>{2: {1}}\<close> and there is no other barrel
  file; \<^verbatim>\<open>get_documents_for_word(0)\<close> returns the document ids \<open>{0, 2}\<close> and
  \<^verbatim>\<open>get_documents_for_word(2)\<close> returns \<open>{1}\<close>. Posting lists are compared as sets.
\<close>

theorem end_to_end_scenario:
  "fresh_lexicon scenario_documents = [''four'' \<mapsto> 0, ''six'' \<mapsto> 1, ''wicket'' \<mapsto> 2] \<and>
   fst scenario_forward = None \<and>
   forward_index (snd scenario_forward) = [(0, [1, 0]), (1, [1, 2]), (2, [0])] \<and>
   (case scenario_build of (e, m, dsk) \<Rightarrow>
      e = None \<and>
      map_option set \<circ> load_barrel dsk 0 = [0 \<mapsto> {0, 2}, 1 \<mapsto> {0, 1}] \<and>
      map_option set \<circ> load_barrel dsk 1 = [2 \<mapsto> {1}] \<and>
      (\<forall>b. b = 0 \<or> b = 1 \<or> dsk b = Missing) \<and>
      (\<exists>doc_ids. get_documents_for_word m dsk 0 = Inr doc_ids \<and> set doc_ids = {0, 2}) \<and>
      (\<exists>doc_ids. get_documents_for_word m dsk 2 = Inr doc_ids \<and> set doc_ids = {1}))"
proof -
  let ?dsk = "(\<lambda>_. Missing)(0 := Pickled [1 \<mapsto> [0, 1], 0 \<mapsto> [0, 2]], 1 := Pickled [2 \<mapsto> [1::int]])"
  let ?m = "\<lparr>barrel_size = 2, barrels_buffer = []\<rparr>"
  have b0: "map_option set \<circ> load_barrel ?dsk 0 = [0 \<mapsto> {0, 2}, 1 \<mapsto> {0, 1}]"
    by (rule ext) (simp add: load_barrel_def)
  have b1: "map_option set \<circ> load_barrel ?dsk 1 = [2 \<mapsto> {1}]"
    by (rule ext) (simp add: load_barrel_def)
  have rest: "\<forall>b. b = 0 \<or> b = 1 \<or> ?dsk b = Missing"
    by simp
  have g0: "\<exists>doc_ids. get_documents_for_word ?m ?dsk 0 = Inr doc_ids \<and> set doc_ids = {0, 2}"
    by (simp add: get_documents_for_word_def get_barrel_id_def load_barrel_def)
  have g2: "\<exists>doc_ids. get_documents_for_word ?m ?dsk 2 = Inr doc_ids \<and> set doc_ids = {1}"
    by (simp add: get_documents_for_word_def get_barrel_id_def load_barrel_def)
  have fwd: "fst scenario_forward = None"
    "forward_index (snd scenario_forward) = [(0, [1, 0]), (1, [1, 2]), (2, [0])]"
    by (simp_all add: scenario_forward_eq)
  show ?thesis
    unfolding scenario_build_eq prod.case
    by (intro conjI scenario_lexicon fwd refl b0 b1 rest g0 g2)
qed

section \<open>The barrel store\<close>

lemma set_list_of_set: "set (list_of_set xs) = set xs"
  by (simp add: list_of_set_def)

lemma distinct_list_of_set: "distinct (list_of_set xs)"
  by (simp add: list_of_set_def)

lemma postings_upd: "postings (data(k \<mapsto> l)) w = (if w = k then set l else postings data w)"
  by (simp add: postings_def)

lemma postings_merge_new_data:
  "postings (merge_new_data cur nd) w = postings cur w \<union> {d. \<exists>ds. (w, ds) \<in> set nd \<and> d \<in> set ds}"
proof (induction nd arbitrary: cur)
  case Nil
  then show ?case by simp
next
  case (Cons p nd)
  obtain k ds where p: "p = (k, ds)" by (cases p)
  define old where "old = (case cur k of None \<Rightarrow> [] | Some l \<Rightarrow> l)"
  have old: "postings cur k = set old"
    by (simp add: postings_def old_def split: option.splits)
  have step: "merge_new_data cur (p # nd) = merge_new_data (cur(k \<mapsto> list_of_set (old @ ds))) nd"
    by (simp add: p old_def split: option.splits)
  have "postings (merge_new_data cur (p # nd)) w =
        postings (cur(k \<mapsto> list_of_set (old @ ds))) w \<union> {d. \<exists>ds. (w, ds) \<in> set nd \<and> d \<in> set ds}"
    by (simp only: step Cons.IH)
  also have "postings (cur(k \<mapsto> list_of_set (old @ ds))) w =
        (if w = k then set old \<union> set ds else postings cur w)"
    by (simp only: postings_upd set_list_of_set set_append)
  finally show ?case
    using old by (auto simp: p)
qed

lemma set_buffered_postings:
  "(b, w, d) \<in> set (buffered_postings buf) \<longleftrightarrow> (\<exists>nd ds. (b, nd) \<in> set buf \<and> (w, ds) \<in> set nd \<and> d \<in> set ds)"
  unfolding buffered_postings_def
  apply (simp add: image_iff split_beta)
  apply (rule iffI)
   apply (metis prod.collapse)
  apply (metis fst_conv snd_conv)
  done

lemma load_barrel_upd:
  "load_barrel (dsk(k := Pickled data)) b = (if b = k then data else load_barrel dsk b)"
  by (simp add: load_barrel_def)

lemma buffered_postings_Cons:
  "(b, w, d) \<in> set (buffered_postings ((k, nd) # buf)) \<longleftrightarrow>
     (b = k \<and> (\<exists>ds. (w, ds) \<in> set nd \<and> d \<in> set ds)) \<or> (b, w, d) \<in> set (buffered_postings buf)"
  by (auto simp: set_buffered_postings)

lemma flush_loop_postings:
  "flush_loop env buf dsk = (None, dsk') \<Longrightarrow>
   postings (load_barrel dsk' b) w = postings (load_barrel dsk b) w \<union> {d. (b, w, d) \<in> set (buffered_postings buf)}"
proof (induction buf arbitrary: dsk)
  case Nil
  then show ?case by (simp add: buffered_postings_def)
next
  case (Cons p buf)
  obtain k nd where p: "p = (k, nd)" by (cases p)
  from Cons.prems have rest:
    "flush_loop env buf (dsk(k := Pickled (merge_new_data (load_barrel dsk k) nd))) = (None, dsk')"
    by (simp add: p Let_def split: write_outcome.splits)
  show ?case
    unfolding Cons.IH[OF rest] p
    by (auto simp: load_barrel_upd postings_merge_new_data buffered_postings_Cons)
qed

lemma inner_map_default:
  "(\<exists>ds. (w', ds) \<in> set (AList.map_default w [d] (\<lambda>doc_ids. doc_ids @ [d]) nd) \<and> d' \<in> set ds)
   \<longleftrightarrow> (w' = w \<and> d' = d) \<or> (\<exists>ds. (w', ds) \<in> set nd \<and> d' \<in> set ds)"
  by (induction nd) (auto split: if_splits)

lemma buffered_postings_map_default:
  "(b', w', d') \<in> set (buffered_postings
      (AList.map_default b [(w, [d])] (AList.map_default w [d] (\<lambda>doc_ids. doc_ids @ [d])) buf))
   \<longleftrightarrow> (b', w', d') = (b, w, d) \<or> (b', w', d') \<in> set (buffered_postings buf)"
proof (induction buf)
  case Nil
  then show ?case by (simp add: buffered_postings_def)
next
  case (Cons p buf)
  obtain k nd where p: "p = (k, nd)" by (cases p)
  show ?case
  proof (cases "k = b")
    case True
    then show ?thesis
      by (simp add: p buffered_postings_Cons inner_map_default) blast
  next
    case False
    then show ?thesis
      using Cons.IH by (simp add: p buffered_postings_Cons) blast
  qed
qed

lemma flush_loop_ok:
  "fst (flush_loop env buf dsk) = None \<longleftrightarrow> (\<forall>b\<in>fst ` set buf. env b = WriteOk)"
proof (induction buf arbitrary: dsk)
  case Nil
  then show ?case by simp
next
  case (Cons p buf)
  obtain k nd where p: "p = (k, nd)" by (cases p)
  show ?case
    by (cases "env k") (simp_all add: p Let_def Cons.IH)
qed

lemma flush_loop_error:
  "flush_loop env buf dsk = (Some e, dsk') \<Longrightarrow> e = OSError"
proof (induction buf arbitrary: dsk)
  case Nil
  then show ?case by simp
next
  case (Cons p buf)
  obtain k nd where p: "p = (k, nd)" by (cases p)
  from Cons.prems show ?case
    by (cases "env k") (auto simp: p Let_def dest: Cons.IH)
qed

lemma flush_loop_written:
  "flush_loop env buf dsk = (None, dsk') \<Longrightarrow> b \<in> fst ` set buf \<Longrightarrow> \<exists>data. dsk' b = Pickled data"
proof (induction buf arbitrary: dsk)
  case Nil
  then show ?case by simp
next
  case (Cons p buf)
  obtain k nd where p: "p = (k, nd)" by (cases p)
  from Cons.prems(1) have rest:
    "flush_loop env buf (dsk(k := Pickled (merge_new_data (load_barrel dsk k) nd))) = (None, dsk')"
    by (simp add: p Let_def split: write_outcome.splits)
  show ?case
  proof (cases "b \<in> fst ` set buf")
    case True
    with Cons.IH[OF rest] show ?thesis by blast
  next
    case False
    with Cons.prems(2) have "b = k" by (auto simp: p)
    have keep: "flush_loop env buf' d1 = (None, d2) \<Longrightarrow> b \<notin> fst ` set buf' \<Longrightarrow> d2 b = d1 b" for buf' d1 d2
    proof (induction buf' arbitrary: d1)
      case Nil
      then show ?case by simp
    next
      case (Cons q buf')
      obtain k' nd' where q: "q = (k', nd')" by (cases q)
      from Cons.prems show ?case
        by (cases "env k'") (auto simp: q Let_def dest: Cons.IH)
    qed
    from keep[OF rest False] \<open>b = k\<close> show ?thesis by simp
  qed
qed

lemma deduplicated_merge_new_data:
  "w \<in> fst ` set nd \<or> deduplicated cur w \<Longrightarrow> deduplicated (merge_new_data cur nd) w"
proof (induction nd arbitrary: cur)
  case Nil
  then show ?case by simp
next
  case (Cons p nd)
  obtain k ds where p: "p = (k, ds)" by (cases p)
  define old where "old = (case cur k of None \<Rightarrow> [] | Some l \<Rightarrow> l)"
  have step: "merge_new_data cur (p # nd) = merge_new_data (cur(k \<mapsto> list_of_set (old @ ds))) nd"
    by (simp add: p old_def split: option.splits)
  have "w \<in> fst ` set nd \<or> deduplicated (cur(k \<mapsto> list_of_set (old @ ds))) w"
  proof (cases "w = k")
    case True
    then show ?thesis by (simp add: deduplicated_def distinct_list_of_set)
  next
    case False
    with Cons.prems show ?thesis by (auto simp: p deduplicated_def)
  qed
  then show ?case
    unfolding step by (rule Cons.IH)
qed

lemma deduplicated_flush_loop:
  "flush_loop env buf dsk = (None, dsk') \<Longrightarrow>
   (\<exists>nd. (b, nd) \<in> set buf \<and> w \<in> fst ` set nd) \<or> deduplicated (load_barrel dsk b) w \<Longrightarrow>
   deduplicated (load_barrel dsk' b) w"
proof (induction buf arbitrary: dsk)
  case Nil
  then show ?case by simp
next
  case (Cons p buf)
  obtain k nd where p: "p = (k, nd)" by (cases p)
  let ?dsk1 = "dsk(k := Pickled (merge_new_data (load_barrel dsk k) nd))"
  from Cons.prems(1) have rest: "flush_loop env buf ?dsk1 = (None, dsk')"
    by (simp add: p Let_def split: write_outcome.splits)
  have "(\<exists>nd. (b, nd) \<in> set buf \<and> w \<in> fst ` set nd) \<or> deduplicated (load_barrel ?dsk1 b) w"
  proof (cases "b = k")
    case True
    from Cons.prems(2) consider
        "\<exists>nd. (b, nd) \<in> set buf \<and> w \<in> fst ` set nd"
      | "w \<in> fst ` set nd" | "deduplicated (load_barrel dsk b) w"
      by (auto simp: p True)
    then show ?thesis
    proof cases
      case 1
      then show ?thesis by blast
    next
      case 2
      then show ?thesis
        by (simp add: True load_barrel_upd deduplicated_merge_new_data)
    next
      case 3
      then show ?thesis
        by (simp add: True load_barrel_upd deduplicated_merge_new_data)
    qed
  next
    case False
    with Cons.prems(2) show ?thesis
      by (auto simp: p load_barrel_upd)
  qed
  with rest show ?case by (rule Cons.IH)
qed

lemma pending_key:
  "(b, w, d) \<in> pending m \<Longrightarrow> \<exists>nd. (b, nd) \<in> set (barrels_buffer m) \<and> w \<in> fst ` set nd"
  unfolding pending_def set_buffered_postings by force

lemma add_to_barrel_ok:
  assumes "barrel_size m \<noteq> 0"
  shows "\<exists>m'. add_to_barrel m w d = (None, m') \<and> barrel_size m' = barrel_size m \<and>
           pending m' = insert (w div barrel_size m, w, d) (pending m)"
proof -
  let ?m' = "m\<lparr>barrels_buffer :=
             AList.map_default (w div barrel_size m) [(w, [d])]
               (AList.map_default w [d] (\<lambda>doc_ids. doc_ids @ [d]))
               (barrels_buffer m)\<rparr>"
  have "add_to_barrel m w d = (None, ?m')"
    using assms by (simp add: add_to_barrel_def get_barrel_id_def)
  moreover have "pending ?m' = insert (w div barrel_size m, w, d) (pending m)"
    unfolding pending_def
    by (rule set_eqI) (simp add: split_paired_all buffered_postings_map_default)
  ultimately show ?thesis by simp
qed

lemma add_word_ids_ok:
  assumes "barrel_size m \<noteq> 0"
  shows "\<exists>m'. add_word_ids m d ws = (None, m') \<and> barrel_size m' = barrel_size m \<and>
           pending m' = pending m \<union> (\<lambda>w. (w div barrel_size m, w, d)) ` set ws"
  using assms
proof (induction ws arbitrary: m)
  case Nil
  then show ?case by simp
next
  case (Cons w ws)
  from add_to_barrel_ok[OF Cons.prems, of w d] obtain m1 where
    m1: "add_to_barrel m w d = (None, m1)" "barrel_size m1 = barrel_size m"
        "pending m1 = insert (w div barrel_size m, w, d) (pending m)"
    by blast
  from Cons.IH[of m1] m1 Cons.prems obtain m2 where
    m2: "add_word_ids m1 d ws = (None, m2)" "barrel_size m2 = barrel_size m"
        "pending m2 = pending m1 \<union> (\<lambda>w. (w div barrel_size m, w, d)) ` set ws"
    by auto
  from m1 m2 show ?case by auto
qed

lemma invert_loop_ok:
  assumes "barrel_size m \<noteq> 0"
  shows "\<exists>m'. invert_loop m fi = (None, m') \<and> barrel_size m' = barrel_size m \<and>
           pending m' = pending m \<union> {(w div barrel_size m, w, d) | w d ws. (d, ws) \<in> set fi \<and> w \<in> set ws}"
  using assms
proof (induction fi arbitrary: m)
  case Nil
  then show ?case by simp
next
  case (Cons p fi)
  obtain d ws where p: "p = (d, ws)" by (cases p)
  from add_word_ids_ok[OF Cons.prems, of d ws] obtain m1 where
    m1: "add_word_ids m d ws = (None, m1)" "barrel_size m1 = barrel_size m"
        "pending m1 = pending m \<union> (\<lambda>w. (w div barrel_size m, w, d)) ` set ws"
    by blast
  from Cons.IH[of m1] m1 Cons.prems obtain m2 where
    m2: "invert_loop m1 fi = (None, m2)" "barrel_size m2 = barrel_size m"
        "pending m2 = pending m1 \<union> {(w div barrel_size m, w, d) | w d ws. (d, ws) \<in> set fi \<and> w \<in> set ws}"
    by auto
  have "invert_loop m (p # fi) = (None, m2)"
    by (simp add: p m1 m2)
  moreover have "pending m2 = pending m \<union> {(w div barrel_size m, w, d) | w d ws. (d, ws) \<in> set (p # fi) \<and> w \<in> set ws}"
    unfolding m2(3) m1(3) p by auto
  ultimately show ?case using m2(2) by blast
qed

lemma add_postings_ok:
  assumes "barrel_size m \<noteq> 0"
  shows "\<exists>m'. add_postings m ps = (None, m') \<and> barrel_size m' = barrel_size m \<and>
           pending m' = pending m \<union> (\<lambda>(w, d). (w div barrel_size m, w, d)) ` set ps"
  using assms
proof (induction ps arbitrary: m)
  case Nil
  then show ?case by simp
next
  case (Cons p ps)
  obtain w d where p: "p = (w, d)" by (cases p)
  from add_to_barrel_ok[OF Cons.prems, of w d] obtain m1 where
    m1: "add_to_barrel m w d = (None, m1)" "barrel_size m1 = barrel_size m"
        "pending m1 = insert (w div barrel_size m, w, d) (pending m)"
    by blast
  from Cons.IH[of m1] m1 Cons.prems obtain m2 where
    m2: "add_postings m1 ps = (None, m2)" "barrel_size m2 = barrel_size m"
        "pending m2 = pending m1 \<union> (\<lambda>(w, d). (w div barrel_size m, w, d)) ` set ps"
    by auto
  from m1 m2 show ?case by (auto simp: p)
qed

lemma flush_barrels_ok:
  assumes "\<forall>b. env b = WriteOk"
  shows "\<exists>dsk'. flush_barrels env m dsk = (None, m\<lparr>barrels_buffer := []\<rparr>, dsk') \<and>
           (\<forall>b w. postings (load_barrel dsk' b) w =
                    postings (load_barrel dsk b) w \<union> {d. (b, w, d) \<in> pending m}) \<and>
           (\<forall>b w. (\<exists>d. (b, w, d) \<in> pending m) \<or> deduplicated (load_barrel dsk b) w
                    \<longrightarrow> deduplicated (load_barrel dsk' b) w)"
proof -
  from assms have "fst (flush_loop env (barrels_buffer m) dsk) = None"
    by (simp add: flush_loop_ok)
  then obtain dsk' where fl: "flush_loop env (barrels_buffer m) dsk = (None, dsk')"
    by (cases "flush_loop env (barrels_buffer m) dsk") auto
  have 1: "flush_barrels env m dsk = (None, m\<lparr>barrels_buffer := []\<rparr>, dsk')"
    by (simp add: flush_barrels_def fl)
  have 2: "postings (load_barrel dsk' b) w =
           postings (load_barrel dsk b) w \<union> {d. (b, w, d) \<in> pending m}" for b w
    unfolding pending_def by (rule flush_loop_postings[OF fl])
  have 3: "deduplicated (load_barrel dsk' b) w"
    if "(\<exists>d. (b, w, d) \<in> pending m) \<or> deduplicated (load_barrel dsk b) w" for b w
  proof (rule deduplicated_flush_loop[OF fl])
    from that show "(\<exists>nd. (b, nd) \<in> set (barrels_buffer m) \<and> w \<in> fst ` set nd) \<or>
                    deduplicated (load_barrel dsk b) w"
      using pending_key[of b w _ m] by blast
  qed
  show ?thesis
    by (rule exI[of _ dsk']) (intro conjI allI impI 1 2 3)
qed

lemma pending_init [simp]: "pending (barrel_manager_init bsize) = {}"
  by (simp add: pending_def barrel_manager_init_def buffered_postings_def)

lemma pending_cleared [simp]: "pending (m\<lparr>barrels_buffer := []\<rparr>) = {}"
  by (simp add: pending_def buffered_postings_def)

lemma get_documents_for_word_postings:
  assumes "barrel_size m \<noteq> 0"
  shows "\<exists>doc_ids. get_documents_for_word m dsk w = Inr doc_ids \<and>
           set doc_ids = postings (load_barrel dsk (w div barrel_size m)) w \<and>
           (deduplicated (load_barrel dsk (w div barrel_size m)) w \<longrightarrow> distinct doc_ids)"
  using assms
  by (auto simp: get_documents_for_word_def get_barrel_id_def postings_def deduplicated_def
           split: option.splits)

lemma postings_Missing [simp]: "postings (load_barrel (\<lambda>_. Missing) b) w = {}"
  by (simp add: postings_def load_barrel_def)

lemma get_document_words_iff:
  "distinct (map fst fi) \<Longrightarrow> w \<in> set (get_document_words fi d) \<longleftrightarrow> (\<exists>ws. (d, ws) \<in> set fi \<and> w \<in> set ws)"
  by (auto simp: get_document_words_def split: option.splits)

section \<open>Forward and inverted index agree\<close>

text \<open>
  Claim C1. A manager as \<^verbatim>\<open>BarrelManager.__init__\<close> leaves it, with a barrel size other
  than 0, inverts a forward index (a dict: its keys are distinct, as they are in every
  forward index the forward index builder returns, by \<open>forward_build_fresh_distinct\<close>) into
  a directory that holds no barrel file, every write succeeding. Then \<^verbatim>\<open>build_from_forward_index\<close>
  returns without an error, and for every word id and document id: the word id occurs in the
  forward-index entry of the document exactly when \<^verbatim>\<open>get_documents_for_word\<close> of the
  word id returns a list that contains the document id.
\<close>

theorem forward_inverted_consistency:
  assumes bs: "bsize \<noteq> 0" and env: "\<forall>b. env b = WriteOk" and dict: "distinct (map fst fi)"
  shows "\<exists>m' dsk'.
           build_from_forward_index env (barrel_manager_init bsize) fi (\<lambda>_. Missing) = (None, m', dsk') \<and>
           (\<forall>word_id d.
              word_id \<in> set (get_document_words fi d) \<longleftrightarrow>
              (\<exists>doc_ids. get_documents_for_word m' dsk' word_id = Inr doc_ids \<and> d \<in> set doc_ids))"
proof -
  let ?m = "barrel_manager_init bsize"
  have bs0: "barrel_size ?m = bsize" by (simp add: barrel_manager_init_def)
  from invert_loop_ok[of ?m fi] bs obtain m1 where
    m1: "invert_loop ?m fi = (None, m1)" "barrel_size m1 = bsize"
        "pending m1 = {(w div bsize, w, d) | w d ws. (d, ws) \<in> set fi \<and> w \<in> set ws}"
    by (auto simp: bs0)
  from flush_barrels_ok[OF env, of m1 "\<lambda>_. Missing"] obtain dsk' where
    fl: "flush_barrels env m1 (\<lambda>_. Missing) = (None, m1\<lparr>barrels_buffer := []\<rparr>, dsk')"
    and post: "\<And>b w. postings (load_barrel dsk' b) w = {d. (b, w, d) \<in> pending m1}"
    by auto
  let ?m' = "m1\<lparr>barrels_buffer := []\<rparr>"
  have build: "build_from_forward_index env ?m fi (\<lambda>_. Missing) = (None, ?m', dsk')"
    by (simp add: build_from_forward_index_def m1 fl)
  have "word_id \<in> set (get_document_words fi d) \<longleftrightarrow>
        (\<exists>doc_ids. get_documents_for_word ?m' dsk' word_id = Inr doc_ids \<and> d \<in> set doc_ids)" for word_id d
  proof -
    from get_documents_for_word_postings[of ?m' dsk' word_id] bs m1(2) obtain doc_ids where
      g: "get_documents_for_word ?m' dsk' word_id = Inr doc_ids"
         "set doc_ids = postings (load_barrel dsk' (word_id div bsize)) word_id"
      by auto
    have "d \<in> set doc_ids \<longleftrightarrow> (\<exists>ws. (d, ws) \<in> set fi \<and> word_id \<in> set ws)"
      unfolding g(2) post m1(3) by auto
    with g(1) show ?thesis
      by (simp add: get_document_words_iff[OF dict])
  qed
  with build show ?thesis by blast
qed

theorem forward_inverted_consistency_witness:
  "(2::int) \<noteq> 0 \<and> (\<forall>b. (\<lambda>_. WriteOk) b = WriteOk) \<and>
   distinct (map fst (forward_index (snd scenario_forward))) \<and>
   (\<exists>m' dsk'.
      build_from_forward_index (\<lambda>_. WriteOk) (barrel_manager_init 2)
        (forward_index (snd scenario_forward)) (\<lambda>_. Missing) = (None, m', dsk') \<and>
      (\<forall>word_id d.
         word_id \<in> set (get_document_words (forward_index (snd scenario_forward)) d) \<longleftrightarrow>
         (\<exists>doc_ids. get_documents_for_word m' dsk' word_id = Inr doc_ids \<and> d \<in> set doc_ids)))"
proof -
  have a: "(2::int) \<noteq> 0" by simp
  have b: "\<forall>b. (\<lambda>_. WriteOk) b = WriteOk" by simp
  have c: "distinct (map fst (forward_index (snd scenario_forward)))"
    by (simp add: scenario_forward_eq)
  from forward_inverted_consistency[OF a b c] a b c show ?thesis by blast
qed

section \<open>Merge on write\<close>

text \<open>
  Claim C3. A manager with an empty buffer and a barrel size other than 0 runs two passes,
  each a sequence of \<^verbatim>\<open>add_to_barrel\<close> calls followed by \<^verbatim>\<open>flush_barrels\<close>, every
  write succeeding. Both passes return without an error. For every word id, the document
  ids that \<^verbatim>\<open>get_documents_for_word\<close> then returns are those it returned before the
  first pass together with the document ids added for the word id in either pass (on a
  directory that held nothing for the word id: exactly the union of the two passes), and
  the list has no duplicates when either pass added a posting for the word id. Neither
  flush removes a posting from any word id of any barrel.
\<close>

theorem merge_on_write:
  assumes bs: "barrel_size m \<noteq> 0" and empty: "barrels_buffer m = []"
    and env1: "\<forall>b. env1 b = WriteOk" and env2: "\<forall>b. env2 b = WriteOk"
  shows "\<exists>m1 dsk1 m2 dsk2 old new.
     flush_pass env1 m ps1 dsk = (None, m1, dsk1) \<and>
     flush_pass env2 m1 ps2 dsk1 = (None, m2, dsk2) \<and>
     get_documents_for_word m dsk word_id = Inr old \<and>
     get_documents_for_word m2 dsk2 word_id = Inr new \<and>
     set new = set old \<union> {d. (word_id, d) \<in> set ps1} \<union> {d. (word_id, d) \<in> set ps2} \<and>
     ((\<exists>d. (word_id, d) \<in> set ps1 \<union> set ps2) \<longrightarrow> distinct new) \<and>
     (\<forall>b w. postings (load_barrel dsk b) w \<subseteq> postings (load_barrel dsk1 b) w \<and>
            postings (load_barrel dsk1 b) w \<subseteq> postings (load_barrel dsk2 b) w)"
proof -
  let ?bs = "barrel_size m"
  let ?b = "word_id div ?bs"
  have pm: "pending m = {}"
    by (simp add: pending_def empty buffered_postings_def)
  from add_postings_ok[OF bs, of ps1] obtain ma where
    ma: "add_postings m ps1 = (None, ma)" "barrel_size ma = ?bs"
        "pending ma = (\<lambda>(w, d). (w div ?bs, w, d)) ` set ps1"
    by (auto simp: pm)
  from flush_barrels_ok[OF env1, of ma dsk] obtain dsk1 where
    f1: "flush_barrels env1 ma dsk = (None, ma\<lparr>barrels_buffer := []\<rparr>, dsk1)"
    and p1: "\<And>b w. postings (load_barrel dsk1 b) w =
                  postings (load_barrel dsk b) w \<union> {d. (b, w, d) \<in> pending ma}"
    and d1: "\<And>b w. (\<exists>d. (b, w, d) \<in> pending ma) \<or> deduplicated (load_barrel dsk b) w
                  \<Longrightarrow> deduplicated (load_barrel dsk1 b) w"
    by blast
  let ?m1 = "ma\<lparr>barrels_buffer := []\<rparr>"
  have bs1: "barrel_size ?m1 \<noteq> 0" using bs ma(2) by simp
  from add_postings_ok[OF bs1, of ps2] obtain mb where
    mb: "add_postings ?m1 ps2 = (None, mb)" "barrel_size mb = ?bs"
        "pending mb = (\<lambda>(w, d). (w div ?bs, w, d)) ` set ps2"
    by (auto simp: ma(2))
  from flush_barrels_ok[OF env2, of mb dsk1] obtain dsk2 where
    f2: "flush_barrels env2 mb dsk1 = (None, mb\<lparr>barrels_buffer := []\<rparr>, dsk2)"
    and p2: "\<And>b w. postings (load_barrel dsk2 b) w =
                  postings (load_barrel dsk1 b) w \<union> {d. (b, w, d) \<in> pending mb}"
    and d2: "\<And>b w. (\<exists>d. (b, w, d) \<in> pending mb) \<or> deduplicated (load_barrel dsk1 b) w
                  \<Longrightarrow> deduplicated (load_barrel dsk2 b) w"
    by blast
  let ?m2 = "mb\<lparr>barrels_buffer := []\<rparr>"
  have pass1: "flush_pass env1 m ps1 dsk = (None, ?m1, dsk1)"
    by (simp add: flush_pass_def ma(1) f1)
  have pass2: "flush_pass env2 ?m1 ps2 dsk1 = (None, ?m2, dsk2)"
    by (simp add: flush_pass_def mb(1) f2)
  from get_documents_for_word_postings[OF bs, of dsk word_id] obtain old where
    old: "get_documents_for_word m dsk word_id = Inr old"
         "set old = postings (load_barrel dsk ?b) word_id"
    by blast
  have bs2: "barrel_size ?m2 \<noteq> 0" using bs mb(2) by simp
  from get_documents_for_word_postings[OF bs2, of dsk2 word_id] obtain new where
    new: "get_documents_for_word ?m2 dsk2 word_id = Inr new"
         "set new = postings (load_barrel dsk2 ?b) word_id"
         "deduplicated (load_barrel dsk2 ?b) word_id \<longrightarrow> distinct new"
    by (auto simp: mb(2))
  have in1: "(?b, word_id, d) \<in> pending ma \<longleftrightarrow> (word_id, d) \<in> set ps1" for d
    unfolding ma(3) by auto
  have in2: "(?b, word_id, d) \<in> pending mb \<longleftrightarrow> (word_id, d) \<in> set ps2" for d
    unfolding mb(3) by auto
  have union: "set new = set old \<union> {d. (word_id, d) \<in> set ps1} \<union> {d. (word_id, d) \<in> set ps2}"
    unfolding new(2) old(2) p2 p1 in1 in2 ..
  have dedup: "distinct new" if "\<exists>d. (word_id, d) \<in> set ps1 \<union> set ps2"
  proof -
    from that consider d where "(word_id, d) \<in> set ps1" | d where "(word_id, d) \<in> set ps2"
      by blast
    then have "deduplicated (load_barrel dsk2 ?b) word_id"
    proof cases
      case 1
      then have "deduplicated (load_barrel dsk1 ?b) word_id"
        using d1[of ?b word_id] in1 by blast
      then show ?thesis using d2[of ?b word_id] by blast
    next
      case 2
      then show ?thesis using d2[of ?b word_id] in2 by blast
    qed
    with new(3) show ?thesis by blast
  qed
  have keep: "postings (load_barrel dsk b) w \<subseteq> postings (load_barrel dsk1 b) w \<and>
              postings (load_barrel dsk1 b) w \<subseteq> postings (load_barrel dsk2 b) w" for b w
    unfolding p2 p1 by blast
  show ?thesis
    apply (rule exI[of _ ?m1], rule exI[of _ dsk1], rule exI[of _ ?m2], rule exI[of _ dsk2])
    apply (rule exI[of _ old], rule exI[of _ new])
    apply (intro conjI allI impI pass1 pass2 old(1) new(1) union keep[THEN conjunct1] keep[THEN conjunct2])
    apply (erule dedup)
    done
qed

theorem merge_on_write_witness:
  "barrel_size (barrel_manager_init 2) \<noteq> 0 \<and> barrels_buffer (barrel_manager_init 2) = [] \<and>
   (\<forall>b. (\<lambda>_. WriteOk) b = WriteOk) \<and>
   (\<exists>m1 dsk1 m2 dsk2 old new.
     flush_pass (\<lambda>_. WriteOk) (barrel_manager_init 2) [(0, 0), (0, 2), (3, 1)] (\<lambda>_. Missing) = (None, m1, dsk1) \<and>
     flush_pass (\<lambda>_. WriteOk) m1 [(0, 2), (0, 5)] dsk1 = (None, m2, dsk2) \<and>
     get_documents_for_word (barrel_manager_init 2) (\<lambda>_. Missing) 0 = Inr old \<and>
     get_documents_for_word m2 dsk2 0 = Inr new \<and>
     set new = set old \<union> {d. (0, d) \<in> set [(0::int, 0::int), (0, 2), (3, 1)]} \<union>
                 {d. (0, d) \<in> set [(0::int, 2::int), (0, 5)]} \<and>
     ((\<exists>d. (0, d) \<in> set [(0::int, 0::int), (0, 2), (3, 1)] \<union> set [(0, 2), (0, 5)]) \<longrightarrow> distinct new) \<and>
     (\<forall>b w. postings (load_barrel (\<lambda>_. Missing) b) w \<subseteq> postings (load_barrel dsk1 b) w \<and>
            postings (load_barrel dsk1 b) w \<subseteq> postings (load_barrel dsk2 b) w))"
proof -
  have a: "barrel_size (barrel_manager_init 2) \<noteq> 0"
    by (simp add: barrel_manager_init_def)
  have b: "barrels_buffer (barrel_manager_init 2) = []"
    by (simp add: barrel_manager_init_def)
  have c: "\<forall>b. (\<lambda>_. WriteOk) b = WriteOk" by simp
  from a b c
    merge_on_write[OF a b c c, where ?ps1.0 = "[(0, 0), (0, 2), (3, 1)]" and ?ps2.0 = "[(0, 2), (0, 5)]"
      and dsk = "\<lambda>_. Missing" and word_id = 0]
  show ?thesis by (intro conjI)
qed

section \<open>Flushing twice\<close>

text \<open>
  Claim C4. After a \<^verbatim>\<open>flush_barrels\<close> that returned without an error, from any manager
  state and any directory, a second \<^verbatim>\<open>flush_barrels\<close> with no \<^verbatim>\<open>add_to_barrel\<close> in
  between returns without an error and leaves every barrel file, and the manager, as they
  were, whatever a write would do.
\<close>

theorem flush_idempotent:
  "flush_barrels env m dsk = (None, m1, dsk1) \<Longrightarrow> flush_barrels env' m1 dsk1 = (None, m1, dsk1)"
  by (auto simp: flush_barrels_def split: prod.splits option.splits)

theorem flush_idempotent_witness:
  "fst (flush_barrels (\<lambda>_. WriteOk) \<lparr>barrel_size = 2, barrels_buffer = [(0, [(1, [4, 4])])]\<rparr> (\<lambda>_. Corrupt)) = None \<and>
   (let r = flush_barrels (\<lambda>_. WriteOk) \<lparr>barrel_size = 2, barrels_buffer = [(0, [(1, [4, 4])])]\<rparr> (\<lambda>_. Corrupt)
    in flush_barrels (\<lambda>_. DumpFails) (fst (snd r)) (snd (snd r)) = (None, fst (snd r), snd (snd r)))"
proof -
  let ?r = "flush_barrels (\<lambda>_. WriteOk) \<lparr>barrel_size = 2, barrels_buffer = [(0, [(1, [4, 4])])]\<rparr> (\<lambda>_. Corrupt)"
  have ok: "fst ?r = None"
    by (simp add: flush_barrels_def)
  then have h: "?r = (None, fst (snd ?r), snd (snd ?r))"
    by (metis prod.collapse)
  from flush_idempotent[OF h, of "\<lambda>_. DumpFails"] ok show ?thesis
    by (simp add: Let_def)
qed

section \<open>Write failures\<close>

lemma flush_barrels_fst:
  "fst (flush_barrels env m dsk) = fst (flush_loop env (barrels_buffer m) dsk)"
  by (simp add: flush_barrels_def split: prod.splits option.splits)

text \<open>
  Claim C8. \<^verbatim>\<open>flush_barrels\<close> raises exactly when the write of some buffered barrel
  fails. When it raises, the error is the write error and the manager, with its whole
  buffer, is as before the call, so that a later flush starts from the same pending
  postings. When the buffer has changed, the call returned without an error, the buffer
  is empty, and the write of every barrel that was in the buffer has succeeded and left a
  readable file.
\<close>

theorem buffer_kept_on_write_failure:
  assumes "flush_barrels env m dsk = (r, m', dsk')"
  shows "(r \<noteq> None \<longleftrightarrow> (\<exists>b\<in>fst ` set (barrels_buffer m). env b \<noteq> WriteOk)) \<and>
         (r \<noteq> None \<longrightarrow> r = Some OSError \<and> m' = m \<and>
            flush_barrels env2 m' dsk' = flush_barrels env2 m dsk') \<and>
         (barrels_buffer m' \<noteq> barrels_buffer m \<longrightarrow>
            r = None \<and> barrels_buffer m' = [] \<and>
            (\<forall>b\<in>fst ` set (barrels_buffer m). env b = WriteOk \<and> (\<exists>data. dsk' b = Pickled data)))"
proof (cases "flush_loop env (barrels_buffer m) dsk")
  case (Pair e d1)
  have iff: "e = None \<longleftrightarrow> (\<forall>b\<in>fst ` set (barrels_buffer m). env b = WriteOk)"
    using flush_loop_ok[of env "barrels_buffer m" dsk] by (simp add: Pair)
  show ?thesis
  proof (cases e)
    case None
    with Pair assms have res: "r = None" "m' = m\<lparr>barrels_buffer := []\<rparr>" "dsk' = d1"
      by (auto simp: flush_barrels_def)
    have "\<exists>data. dsk' b = Pickled data" if "b \<in> fst ` set (barrels_buffer m)" for b
      using flush_loop_written[of env "barrels_buffer m" dsk d1 b] Pair None that res(3) by simp
    with iff None res show ?thesis by auto
  next
    case (Some x)
    with Pair have "x = OSError" by (auto dest: flush_loop_error)
    with Pair Some assms have res: "r = Some OSError" "m' = m" "dsk' = d1"
      by (auto simp: flush_barrels_def)
    with iff Some show ?thesis by auto
  qed
qed

theorem buffer_kept_on_write_failure_witness:
  "(let m = \<lparr>barrel_size = 2, barrels_buffer = [(0, [(1, [4])]), (1, [(2, [5])])]\<rparr>;
        env = (\<lambda>b. if b = 1 then OpenFails else WriteOk);
        r = flush_barrels env m (\<lambda>_. Missing)
    in fst r = Some OSError \<and> fst (snd r) = m \<and>
       fst (flush_barrels (\<lambda>_. WriteOk) (fst (snd r)) (snd (snd r))) = None)"
proof -
  let ?m = "\<lparr>barrel_size = 2, barrels_buffer = [(0, [(1, [4])]), (1, [(2, [5])])]\<rparr>"
  let ?env = "\<lambda>b::int. if b = 1 then OpenFails else WriteOk"
  let ?r = "flush_barrels ?env ?m (\<lambda>_. Missing)"
  have h: "?r = (fst ?r, fst (snd ?r), snd (snd ?r))" by simp
  have bad: "\<exists>b\<in>fst ` set (barrels_buffer ?m). ?env b \<noteq> WriteOk" by simp
  from buffer_kept_on_write_failure[OF h, of "\<lambda>_. WriteOk"] bad
  have "fst ?r = Some OSError" "fst (snd ?r) = ?m" by blast+
  moreover have "fst (flush_barrels (\<lambda>_. WriteOk) ?m (snd (snd ?r))) = None"
    unfolding flush_barrels_fst flush_loop_ok by simp
  ultimately show ?thesis by (simp add: Let_def)
qed

section \<open>Missing and corrupt barrels\<close>

text \<open>
  Claim C9. \<^verbatim>\<open>load_barrel\<close> returns a dict and no error (its result type has no error),
  the empty dict when the barrel file is absent or does not unpickle. When the barrel of a
  word id is absent, or does not unpickle, or holds no entry for the word id,
  \<^verbatim>\<open>get_documents_for_word\<close> returns the empty list.
\<close>

theorem load_barrel_missing_or_corrupt:
  "(dsk b = Missing \<or> dsk b = Corrupt \<longrightarrow> load_barrel dsk b = Map.empty) \<and>
   (get_barrel_id m word_id = Inr b \<and>
      (dsk b = Missing \<or> dsk b = Corrupt \<or> (\<exists>data. dsk b = Pickled data \<and> data word_id = None))
    \<longrightarrow> get_documents_for_word m dsk word_id = Inr [])"
  by (auto simp: load_barrel_def get_documents_for_word_def)

theorem load_barrel_missing_or_corrupt_witness:
  "load_barrel (\<lambda>_. Corrupt) 1 = Map.empty \<and>
   get_documents_for_word (barrel_manager_init 2) (\<lambda>_. Corrupt) 3 = Inr [] \<and>
   get_documents_for_word (barrel_manager_init 2) ((\<lambda>_. Missing)(1 := Pickled [2 \<mapsto> [7]])) 3 = Inr []"
  using load_barrel_missing_or_corrupt[of "\<lambda>_. Corrupt" 1 "barrel_manager_init 2" 3]
        load_barrel_missing_or_corrupt[of "(\<lambda>_. Missing)(1 := Pickled [2 \<mapsto> [7]])" 1 "barrel_manager_init 2" 3]
  by (simp add: get_barrel_id_def barrel_manager_init_def)

end
